theory Spec2Isabelle
  imports Complex_Main "HOL-Library.Sublist"
begin

section \<open>Data model\<close>

text \<open>
  A pandas \<open>Series\<close> of floats is an ordered sequence of (timestamp, value) pairs.
  A value is a real number or missing; the missing value (\<open>NaN\<close>) is \<open>None\<close>.
  Timestamps are kept abstract.  Floating-point rounding and infinite values are
  not modelled: arithmetic is that of the reals.
\<close>

type_synonym fl = "real option"

type_synonym 'ts series = "('ts \<times> fl) list"

datatype error = ValueError

definition index :: "'ts series \<Rightarrow> 'ts list" where
  "index r = map fst r"

definition vals :: "'ts series \<Rightarrow> fl list" where
  "vals r = map snd r"

definition isna :: "fl \<Rightarrow> bool" where
  "isna v = (v = None)"

definition notna :: "fl \<Rightarrow> bool" where
  "notna v = (v \<noteq> None)"

definition dropna :: "'ts series \<Rightarrow> 'ts series" where
  "dropna r = filter (\<lambda>(t, v). notna v) r"

subsection \<open>Arithmetic and comparisons with NaN\<close>

text \<open>Arithmetic propagates NaN; every comparison with NaN is false.\<close>

fun fl_sub :: "fl \<Rightarrow> fl \<Rightarrow> fl" where
  "fl_sub (Some a) (Some b) = Some (a - b)"
| "fl_sub _ _ = None"

fun fl_mul :: "fl \<Rightarrow> fl \<Rightarrow> fl" where
  "fl_mul (Some a) (Some b) = Some (a * b)"
| "fl_mul _ _ = None"

fun fl_abs :: "fl \<Rightarrow> fl" where
  "fl_abs (Some a) = Some \<bar>a\<bar>"
| "fl_abs None = None"

fun fl_neg :: "fl \<Rightarrow> fl" where
  "fl_neg (Some a) = Some (- a)"
| "fl_neg None = None"

fun fl_gt :: "fl \<Rightarrow> fl \<Rightarrow> bool" where
  "fl_gt (Some a) (Some b) = (a > b)"
| "fl_gt _ _ = False"

fun fl_le :: "fl \<Rightarrow> fl \<Rightarrow> bool" where
  "fl_le (Some a) (Some b) = (a \<le> b)"
| "fl_le _ _ = False"

fun fl_ge :: "fl \<Rightarrow> fl \<Rightarrow> bool" where
  "fl_ge (Some a) (Some b) = (a \<ge> b)"
| "fl_ge _ _ = False"

text \<open>Python's \<open>max(a, b)\<close>: the first argument unless the second is greater.\<close>

definition py_max :: "fl \<Rightarrow> fl \<Rightarrow> fl" where
  "py_max a b = (if fl_gt b a then b else a)"

text \<open>The non-missing values of a column, in order.\<close>

fun notna_values :: "fl list \<Rightarrow> real list" where
  "notna_values [] = []"
| "notna_values (None # vs) = notna_values vs"
| "notna_values (Some x # vs) = x # notna_values vs"

subsection \<open>Library operations on a series\<close>

text \<open>
  \<open>Series.quantile(q)\<close> with the default linear interpolation: the sorted valid values
  are read at the virtual index \<open>q * (n - 1)\<close>, between the order statistic below it and
  the next one (clipped to the last), weighted by the fractional part.
\<close>

definition linear_quantile :: "real list \<Rightarrow> real \<Rightarrow> real" where
  "linear_quantile xs q =
     (let s = sort xs;
          n = length s;
          virt = q * real (n - 1);
          prev = nat \<lfloor>virt\<rfloor>;
          nxt = min (prev + 1) (n - 1);
          gamma = virt - real prev
      in s ! prev + (s ! nxt - s ! prev) * gamma)"

text \<open>
  The library rejects a level outside \<open>[0, 1]\<close> with a \<open>ValueError\<close> before it looks at
  the data, skips missing values, and yields NaN when no value is left.
\<close>

definition quantile :: "fl list \<Rightarrow> real \<Rightarrow> error + fl" where
  "quantile vs q =
     (if \<not> (0 \<le> q \<and> q \<le> 1) then Inl ValueError
      else let xs = notna_values vs in
           if xs = [] then Inr None else Inr (Some (linear_quantile xs q)))"

text \<open>\<open>Series.mean()\<close> skips missing values; the mean of nothing is NaN.\<close>

definition mean :: "fl list \<Rightarrow> fl" where
  "mean vs =
     (let xs = notna_values vs in
      if xs = [] then None else Some (sum_list xs / real (length xs)))"

text \<open>\<open>Series.diff()\<close>: the first entry is NaN, entry \<open>i\<close> is \<open>g[i] - g[i-1]\<close>.\<close>

definition diff :: "fl list \<Rightarrow> fl list" where
  "diff g = (case g of [] \<Rightarrow> [] | _ # rest \<Rightarrow> None # map2 fl_sub rest g)"

text \<open>
  \<open>xs.iloc[a:b]\<close>: a negative bound counts from the end, and both bounds are clipped
  to the length.
\<close>

definition slice_bound :: "nat \<Rightarrow> int \<Rightarrow> nat" where
  "slice_bound n i = (if i < 0 then nat (max 0 (int n + i)) else min n (nat i))"

definition iloc_slice :: "'a list \<Rightarrow> int \<Rightarrow> int \<Rightarrow> 'a list" where
  "iloc_slice xs a b =
     (let lo = slice_bound (length xs) a; hi = slice_bound (length xs) b
      in take (hi - lo) (drop lo xs))"

subsection \<open>The result mapping\<close>

text \<open>
  A \<open>defaultdict(list)\<close> is an association list in insertion order.  It holds only the
  keys that were materialised; \<open>dd_append\<close> is \<open>labels[k].append(t)\<close>, which
  creates the key on first use, and \<open>dd_get\<close> reads a bucket, an absent key reading as
  the empty list.
\<close>

type_synonym 'ts labels = "(string \<times> 'ts list) list"

fun dd_append :: "'ts labels \<Rightarrow> string \<Rightarrow> 'ts \<Rightarrow> 'ts labels" where
  "dd_append [] k t = [(k, [t])]"
| "dd_append ((k', l) # rest) k t =
     (if k' = k then (k', l @ [t]) # rest else (k', l) # dd_append rest k t)"

definition dd_keys :: "'ts labels \<Rightarrow> string list" where
  "dd_keys labels = map fst labels"

definition dd_get :: "'ts labels \<Rightarrow> string \<Rightarrow> 'ts list" where
  "dd_get labels k = (case map_of labels k of None \<Rightarrow> [] | Some l \<Rightarrow> l)"

definition pattern_names :: "string list" where
  "pattern_names = [''down_turn_flat'', ''flat_turn_down'', ''flat_turn_up'', ''up_turn_flat'']"

section \<open>Spike detector\<close>

definition detect_type1_spike_up :: "'ts series \<Rightarrow> real \<Rightarrow> error + 'ts list" where
  "detect_type1_spike_up r0 q_up =
     (let r = dropna r0 in
      if length r < 5 then Inr []
      else case quantile (vals r) q_up of
             Inl e \<Rightarrow> Inl e
           | Inr th \<Rightarrow> Inr (index (filter (\<lambda>(t, v). fl_gt v th) r)))"

section \<open>Turn-pattern detector\<close>

text \<open>The threshold on the step size is a float or \<open>+inf\<close>.\<close>

datatype thresh = PosInf | Thr fl

fun ge_thresh :: "fl \<Rightarrow> thresh \<Rightarrow> bool" where
  "ge_thresh a (Thr b) = fl_ge a b"
| "ge_thresh a PosInf = False"

definition trend_label :: "fl \<Rightarrow> fl \<Rightarrow> fl \<Rightarrow> string" where
  "trend_label th_flat th_trend mu =
     (if fl_le (fl_abs mu) th_flat then ''flat''
      else if fl_ge mu th_trend then ''up''
      else if fl_le mu (fl_neg th_trend) then ''down''
      else ''flat'')"

definition turn_cond :: "fl list \<Rightarrow> fl list \<Rightarrow> thresh \<Rightarrow> nat \<Rightarrow> bool" where
  "turn_cond g h th_h t_pos =
     (fl_le (fl_mul (g ! (t_pos - 1)) (g ! t_pos)) (Some 0) \<and> ge_thresh (fl_abs (h ! t_pos)) th_h)"

text \<open>One iteration of the scan loop at position \<open>t_pos\<close>.\<close>

definition scan_step ::
  "'ts series \<Rightarrow> fl list \<Rightarrow> thresh \<Rightarrow> fl \<Rightarrow> fl \<Rightarrow> int \<Rightarrow> int \<Rightarrow> 'ts labels \<Rightarrow> nat \<Rightarrow> 'ts labels" where
  "scan_step r h th_h th_flat th_trend w_pre w_post labels t_pos =
     (let g = vals r;
          t = index r ! t_pos;
          g_prev = g ! (t_pos - 1);
          g_curr = g ! t_pos;
          h_curr = h ! t_pos
      in if isna g_prev \<or> isna g_curr \<or> isna h_curr then labels
         else if \<not> turn_cond g h th_h t_pos then labels
         else let pre_mu = mean (iloc_slice g (max 0 (int t_pos - w_pre)) (int t_pos));
                  post_mu = mean (iloc_slice g (int t_pos + 1)
                                     (min (int (length g)) (int t_pos + 1 + w_post)));
                  pre_lbl = trend_label th_flat th_trend pre_mu;
                  post_lbl = trend_label th_flat th_trend post_mu
              in if pre_lbl = ''down'' \<and> post_lbl = ''flat'' then dd_append labels ''down_turn_flat'' t
                 else if pre_lbl = ''flat'' \<and> post_lbl = ''down'' then dd_append labels ''flat_turn_down'' t
                 else if pre_lbl = ''flat'' \<and> post_lbl = ''up'' then dd_append labels ''flat_turn_up'' t
                 else if pre_lbl = ''up'' \<and> post_lbl = ''flat'' then dd_append labels ''up_turn_flat'' t
                 else labels)"

text \<open>The three thresholds, in the order the code computes them.\<close>

definition step_threshold :: "fl list \<Rightarrow> real \<Rightarrow> error + thresh" where
  "step_threshold h q_h =
     (if list_ex notna h
      then (case quantile (map fl_abs h) q_h of Inl e \<Rightarrow> Inl e | Inr th \<Rightarrow> Inr (Thr th))
      else Inr PosInf)"

definition level_threshold :: "fl list \<Rightarrow> real \<Rightarrow> error + fl" where
  "level_threshold abs_g q = (if abs_g \<noteq> [] then quantile abs_g q else Inr (Some 0))"

definition detect_type2_turn_patterns ::
  "'ts series \<Rightarrow> int \<Rightarrow> int \<Rightarrow> real \<Rightarrow> real \<Rightarrow> real \<Rightarrow> error + 'ts labels" where
  "detect_type2_turn_patterns r0 w_pre w_post q_h q_flat q_trend =
     (let r = dropna r0 in
      if int (length r) < w_pre + w_post + 4 then Inr []
      else
        let g = vals r; h = diff g in
        case step_threshold h q_h of
          Inl e \<Rightarrow> Inl e
        | Inr th_h \<Rightarrow>
            let abs_g = filter notna (map fl_abs g) in
            (case level_threshold abs_g q_flat of
               Inl e \<Rightarrow> Inl e
             | Inr th_flat \<Rightarrow>
                 (case level_threshold abs_g q_trend of
                    Inl e \<Rightarrow> Inl e
                  | Inr th_trend0 \<Rightarrow>
                      let th_trend = py_max th_trend0 (fl_mul th_flat (Some (11 / 10)))
                      in Inr (foldl (scan_step r h th_h th_flat th_trend w_pre w_post) []
                                [1 ..< length r - 1]))))"

text \<open>
  The key that the loop body appends to at a position, if any: the same tests as
  \<open>scan_step\<close>, without the mapping.
\<close>

definition pattern_at ::
  "fl list \<Rightarrow> fl list \<Rightarrow> thresh \<Rightarrow> fl \<Rightarrow> fl \<Rightarrow> int \<Rightarrow> int \<Rightarrow> nat \<Rightarrow> string option" where
  "pattern_at g h th_h th_flat th_trend w_pre w_post t_pos =
     (if isna (g ! (t_pos - 1)) \<or> isna (g ! t_pos) \<or> isna (h ! t_pos) then None
      else if \<not> turn_cond g h th_h t_pos then None
      else let pre_mu = mean (iloc_slice g (max 0 (int t_pos - w_pre)) (int t_pos));
               post_mu = mean (iloc_slice g (int t_pos + 1)
                                  (min (int (length g)) (int t_pos + 1 + w_post)));
               pre_lbl = trend_label th_flat th_trend pre_mu;
               post_lbl = trend_label th_flat th_trend post_mu
           in if pre_lbl = ''down'' \<and> post_lbl = ''flat'' then Some ''down_turn_flat''
              else if pre_lbl = ''flat'' \<and> post_lbl = ''down'' then Some ''flat_turn_down''
              else if pre_lbl = ''flat'' \<and> post_lbl = ''up'' then Some ''flat_turn_up''
              else if pre_lbl = ''up'' \<and> post_lbl = ''flat'' then Some ''up_turn_flat''
              else None)"


text \<open>The non-missing values of a series, and their first differences.\<close>

definition clean_values :: "'ts series \<Rightarrow> real list" where
  "clean_values r = notna_values (vals r)"

definition first_differences :: "real list \<Rightarrow> real list" where
  "first_differences xs = map2 (\<lambda>b a. b - a) (tl xs) xs"

section \<open>Example series\<close>

text \<open>
  Twenty strictly increasing points that cross zero between positions 15 and 16 with
  one large step.
\<close>

definition crossing_series :: "nat series" where
  "crossing_series = [
      (0, Some (- 16)), (1, Some (- 15)), (2, Some (- 14)), (3, Some (- 13)), (4, Some (- 12)),
      (5, Some (- 11)), (6, Some (- 10)), (7, Some (- 9)), (8, Some (- 8)), (9, Some (- 7)),
      (10, Some (- 6)), (11, Some (- 5)), (12, Some (- 4)), (13, Some (- 3)), (14, Some (- 2)),
      (15, Some (- 1)), (16, Some 1000), (17, Some 1001), (18, Some 1002), (19, Some 1003)]"

text \<open>Ten strictly increasing positive points.\<close>

definition rising_series :: "nat series" where
  "rising_series = [
      (0, Some 1), (1, Some 2), (2, Some 3), (3, Some 4), (4, Some 5),
      (5, Some 6), (6, Some 7), (7, Some 8), (8, Some 9), (9, Some 10)]"



text \<open>The crossing series with a missing point put in after the fifth entry.\<close>

definition gapped_series :: "nat series" where
  "gapped_series = take 5 crossing_series @ (100, None) # drop 5 crossing_series"

text \<open>Four points around a missing one: too few for either detector.\<close>

definition short_series :: "nat series" where
  "short_series = [(0, Some 1), (1, Some (- 4)), (2, None), (3, Some 2), (4, Some 7)]"

section \<open>The result mapping and the scan loop\<close>

lemma dd_get_Nil [simp]: "dd_get [] k = []"
  by (simp add: dd_get_def)

lemma dd_keys_Nil [simp]: "dd_keys [] = []"
  by (simp add: dd_keys_def)

lemma dd_get_append:
  "dd_get (dd_append labels k t) k' = (if k' = k then dd_get labels k @ [t] else dd_get labels k')"
  by (induction labels k t rule: dd_append.induct) (auto simp: dd_get_def)

lemma dd_keys_append:
  "set (dd_keys (dd_append labels k t)) = insert k (set (dd_keys labels))"
  by (induction labels k t rule: dd_append.induct) (auto simp: dd_keys_def)

lemma dd_append_fst_image:
  "fst ` set (dd_append labels k t) = insert k (fst ` set labels)"
  by (induction labels k t rule: dd_append.induct) auto

lemma dd_keys_append_distinct:
  "distinct (dd_keys labels) \<Longrightarrow> distinct (dd_keys (dd_append labels k t))"
  by (induction labels k t rule: dd_append.induct) (auto simp: dd_keys_def dd_append_fst_image)

lemma dd_get_eq_Nil_absent:
  "k \<notin> set (dd_keys labels) \<Longrightarrow> dd_get labels k = []"
  by (simp add: dd_get_def dd_keys_def map_of_eq_None_iff[THEN iffD2])

lemma scan_step_pattern:
  "scan_step r h th_h th_flat th_trend w_pre w_post labels t_pos =
     (case pattern_at (vals r) h th_h th_flat th_trend w_pre w_post t_pos of
        None \<Rightarrow> labels
      | Some k \<Rightarrow> dd_append labels k (index r ! t_pos))"
  by (simp add: scan_step_def pattern_at_def Let_def)

lemma pattern_at_names:
  "pattern_at g h th_h th_flat th_trend w_pre w_post t_pos = Some k \<Longrightarrow> k \<in> set pattern_names"
  by (auto simp: pattern_at_def pattern_names_def Let_def split: if_splits)


lemma scan_get:
  "dd_get (foldl (scan_step r h th_h th_flat th_trend w_pre w_post) labels ps) k =
     dd_get labels k @
     map (\<lambda>t. index r ! t)
       (filter (\<lambda>t. pattern_at (vals r) h th_h th_flat th_trend w_pre w_post t = Some k) ps)"
proof (induction ps arbitrary: labels)
  case Nil
  show ?case by simp
next
  case (Cons p ps)
  let ?f = "scan_step r h th_h th_flat th_trend w_pre w_post"
  have step: "dd_get (?f labels p) k =
      dd_get labels k @ map (\<lambda>t. index r ! t)
        (filter (\<lambda>t. pattern_at (vals r) h th_h th_flat th_trend w_pre w_post t = Some k) [p])"
    by (cases "pattern_at (vals r) h th_h th_flat th_trend w_pre w_post p")
       (simp_all add: scan_step_pattern dd_get_append)
  have "foldl ?f labels (p # ps) = foldl ?f (?f labels p) ps"
    by simp
  then show ?case
    using Cons.IH [of "?f labels p"] step by simp
qed

lemma scan_keys:
  "set (dd_keys (foldl (scan_step r h th_h th_flat th_trend w_pre w_post) labels ps)) =
     set (dd_keys labels) \<union>
     {k. \<exists>t \<in> set ps. pattern_at (vals r) h th_h th_flat th_trend w_pre w_post t = Some k}"
proof (induction ps arbitrary: labels)
  case Nil
  show ?case by simp
next
  case (Cons p ps)
  let ?f = "scan_step r h th_h th_flat th_trend w_pre w_post"
  have step: "set (dd_keys (?f labels p)) =
      set (dd_keys labels) \<union>
      {k. pattern_at (vals r) h th_h th_flat th_trend w_pre w_post p = Some k}"
    by (cases "pattern_at (vals r) h th_h th_flat th_trend w_pre w_post p")
       (simp_all add: scan_step_pattern dd_keys_append)
  have "foldl ?f labels (p # ps) = foldl ?f (?f labels p) ps"
    by simp
  then show ?case
    using Cons.IH [of "?f labels p"] step by auto
qed

lemma scan_keys_distinct:
  "distinct (dd_keys labels) \<Longrightarrow>
   distinct (dd_keys (foldl (scan_step r h th_h th_flat th_trend w_pre w_post) labels ps))"
proof (induction ps arbitrary: labels)
  case Nil
  then show ?case by simp
next
  case (Cons p ps)
  let ?f = "scan_step r h th_h th_flat th_trend w_pre w_post"
  have "distinct (dd_keys (?f labels p))"
    using Cons.prems
    by (cases "pattern_at (vals r) h th_h th_flat th_trend w_pre w_post p")
       (simp_all add: scan_step_pattern dd_keys_append_distinct)
  then have "distinct (dd_keys (foldl ?f (?f labels p) ps))"
    by (rule Cons.IH)
  then show ?case by simp
qed

lemma scan_get_positions:
  "\<exists>ps. sorted_wrt (<) ps \<and> set ps \<subseteq> {1 ..< n - 1} \<and>
        (\<forall>t \<in> set ps. pattern_at (vals r) h th_h th_flat th_trend w_pre w_post t = Some k) \<and>
        dd_get (foldl (scan_step r h th_h th_flat th_trend w_pre w_post) [] [1 ..< n - 1]) k =
          map (\<lambda>t. index r ! t) ps"
proof -
  let ?ps = "filter (\<lambda>t. pattern_at (vals r) h th_h th_flat th_trend w_pre w_post t = Some k)
               [1 ..< n - 1]"
  have "sorted_wrt (<) ?ps"
    by (rule sorted_wrt_filter) simp
  moreover have "set ?ps \<subseteq> {1 ..< n - 1}"
    by auto
  moreover have "dd_get (foldl (scan_step r h th_h th_flat th_trend w_pre w_post) [] [1 ..< n - 1]) k
                   = map (\<lambda>t. index r ! t) ?ps"
    by (simp add: scan_get)
  ultimately show ?thesis
    by (intro exI [of _ ?ps]) simp
qed

section \<open>Shape of the detector's result\<close>

lemma detect_type2_cases:
  assumes "detect_type2_turn_patterns r0 w_pre w_post q_h q_flat q_trend = Inr labels"
  shows "labels = [] \<or>
         (\<exists>th_h th_flat th_trend.
            step_threshold (diff (vals (dropna r0))) q_h = Inr th_h \<and>
            labels = foldl (scan_step (dropna r0) (diff (vals (dropna r0))) th_h th_flat th_trend
                             w_pre w_post) [] [1 ..< length (dropna r0) - 1])"
  using assms
  by (auto simp: detect_type2_turn_patterns_def Let_def split: if_splits sum.splits)

lemma detect_type2_returns:
  assumes "0 \<le> q_h" "q_h \<le> 1" "0 \<le> q_flat" "q_flat \<le> 1" "0 \<le> q_trend" "q_trend \<le> 1"
  shows "\<exists>labels. detect_type2_turn_patterns r0 w_pre w_post q_h q_flat q_trend = Inr labels"
  using assms
  by (simp add: detect_type2_turn_patterns_def Let_def step_threshold_def level_threshold_def
        quantile_def)

section \<open>The cleaned series as real values\<close>

lemma vals_dropna: "vals (dropna r) = map Some (clean_values r)"
proof (induction r)
  case Nil
  show ?case by (simp add: vals_def dropna_def clean_values_def)
next
  case (Cons p r)
  obtain t v where p: "p = (t, v)" by (cases p)
  from Cons show ?case
    by (cases v) (simp_all add: p vals_def dropna_def clean_values_def notna_def)
qed

lemma length_dropna: "length (dropna r) = length (clean_values r)"
  using arg_cong [OF vals_dropna [of r], of length] by (simp add: vals_def)

lemma index_dropna_subset: "set (index (dropna r)) \<subseteq> set (index r)"
  by (auto simp: index_def dropna_def)


lemma notna_values_Some [simp]: "notna_values (map Some xs) = xs"
  by (induction xs) simp_all

lemma notna_values_abs_Some [simp]: "notna_values (map (fl_abs \<circ> Some) xs) = map abs xs"
  by (induction xs) simp_all



lemma length_first_differences [simp]: "length (first_differences xs) = length xs - 1"
  by (simp add: first_differences_def)



lemma scan_members:
  "ts \<in> set (dd_get (foldl (scan_step r h th_h th_flat th_trend w_pre w_post) [] [1 ..< n - 1]) k)
   \<longleftrightarrow> (\<exists>t. 1 \<le> t \<and> t + 1 < n \<and>
            pattern_at (vals r) h th_h th_flat th_trend w_pre w_post t = Some k \<and>
            index r ! t = ts)"
  by (auto simp: scan_get)


section \<open>Linear interpolation between order statistics\<close>

lemma interp_bounds:
  fixes s :: "real list"
  assumes "sorted s" and "s \<noteq> []" and "0 \<le> p" and "p \<le> real (length s - 1)"
  defines "lo \<equiv> nat \<lfloor>p\<rfloor>"
  defines "nx \<equiv> min (lo + 1) (length s - 1)"
  shows "lo \<le> length s - 1"
    and "s ! lo \<le> s ! lo + (s ! nx - s ! lo) * (p - real lo)"
    and "s ! lo + (s ! nx - s ! lo) * (p - real lo) \<le> s ! nx"
proof -
  have fl: "real lo = of_int \<lfloor>p\<rfloor>"
    using assms(3) by (simp add: lo_def)
  have g0: "0 \<le> p - real lo" and g1: "p - real lo \<le> 1"
    unfolding fl by linarith+
  have "\<lfloor>p\<rfloor> \<le> int (length s - 1)"
    using assms(4) by (simp add: floor_le_iff)
  then show lo: "lo \<le> length s - 1"
    by (simp add: lo_def)
  have n: "0 < length s"
    using assms(2) by simp
  have "lo \<le> nx" and "nx < length s"
    unfolding nx_def using lo n by arith+
  then have d: "s ! lo \<le> s ! nx"
    using assms(1) by (simp add: sorted_nth_mono)
  show "s ! lo \<le> s ! lo + (s ! nx - s ! lo) * (p - real lo)"
    using d g0 by simp
  have "(s ! nx - s ! lo) * (p - real lo) \<le> (s ! nx - s ! lo) * 1"
    using d g1 by (intro mult_left_mono) simp_all
  then show "s ! lo + (s ! nx - s ! lo) * (p - real lo) \<le> s ! nx"
    by simp
qed

lemma interp_mono:
  fixes s :: "real list"
  assumes srt: "sorted s" and ne: "s \<noteq> []"
    and p1: "0 \<le> p1" and le: "p1 \<le> p2" and p2: "p2 \<le> real (length s - 1)"
  shows "s ! nat \<lfloor>p1\<rfloor>
           + (s ! min (nat \<lfloor>p1\<rfloor> + 1) (length s - 1) - s ! nat \<lfloor>p1\<rfloor>) * (p1 - real (nat \<lfloor>p1\<rfloor>))
         \<le> s ! nat \<lfloor>p2\<rfloor>
           + (s ! min (nat \<lfloor>p2\<rfloor> + 1) (length s - 1) - s ! nat \<lfloor>p2\<rfloor>) * (p2 - real (nat \<lfloor>p2\<rfloor>))"
proof -
  define l1 where "l1 = nat \<lfloor>p1\<rfloor>"
  define l2 where "l2 = nat \<lfloor>p2\<rfloor>"
  define n1 where "n1 = min (l1 + 1) (length s - 1)"
  define n2 where "n2 = min (l2 + 1) (length s - 1)"
  have p1': "p1 \<le> real (length s - 1)" and p2': "0 \<le> p2"
    using p1 le p2 by linarith+
  note b1 = interp_bounds [OF srt ne p1 p1', folded l1_def, folded n1_def]
  note b2 = interp_bounds [OF srt ne p2' p2, folded l2_def, folded n2_def]
  have l12: "l1 \<le> l2"
    unfolding l1_def l2_def using le by (intro nat_mono floor_mono)
  have n: "0 < length s"
    using ne by simp
  have "s ! l1 + (s ! n1 - s ! l1) * (p1 - real l1) \<le> s ! l2 + (s ! n2 - s ! l2) * (p2 - real l2)"
  proof (cases "l1 = l2")
    case True
    then have eq: "n1 = n2"
      by (simp add: n1_def n2_def)
    have "l2 \<le> n2" and "n2 < length s"
      unfolding n2_def using b2(1) n by arith+
    then have "0 \<le> s ! n2 - s ! l2"
      using srt by (simp add: sorted_nth_mono)
    then have "(s ! n2 - s ! l2) * (p1 - real l2) \<le> (s ! n2 - s ! l2) * (p2 - real l2)"
      using le by (intro mult_left_mono) simp_all
    then show ?thesis
      by (simp add: True eq)
  next
    case False
    with l12 have "l1 + 1 \<le> l2"
      by simp
    then have "n1 \<le> l2"
      by (simp add: n1_def min_le_iff_disj)
    moreover have "l2 < length s"
      using b2(1) n by arith
    ultimately have "s ! n1 \<le> s ! l2"
      using srt by (simp add: sorted_nth_mono)
    with b1(3) b2(2) show ?thesis
      by linarith
  qed
  then show ?thesis
    by (simp add: l1_def l2_def n1_def n2_def)
qed

lemma linear_quantile_mono:
  assumes "xs \<noteq> []" and "0 \<le> q1" and "q1 \<le> q2" and "q2 \<le> 1"
  shows "linear_quantile xs q1 \<le> linear_quantile xs q2"
proof -
  let ?s = "sort xs"
  have ne: "?s \<noteq> []"
    using assms(1) by (metis length_sort length_0_conv)
  have a: "0 \<le> q1 * real (length ?s - 1)"
    using assms(2) by simp
  have b: "q1 * real (length ?s - 1) \<le> q2 * real (length ?s - 1)"
    using assms(3) by (intro mult_right_mono) simp_all
  have "0 \<le> q2"
    using assms(2,3) by simp
  then have c: "q2 * real (length ?s - 1) \<le> real (length ?s - 1)"
    using assms(4) by (intro mult_left_le_one_le) simp_all
  show ?thesis
    unfolding linear_quantile_def Let_def
    by (rule interp_mono [OF sorted_sort ne a b c])
qed


section \<open>Both detectors read only the cleaned series\<close>

lemma clean_values_dropna [simp]: "notna_values (vals (dropna r)) = clean_values r"
  by (simp add: vals_dropna)

lemma spike_filter:
  "filter (\<lambda>(t, v). fl_gt v (Some th)) (dropna r) =
   filter (\<lambda>(t, v). case v of None \<Rightarrow> False | Some x \<Rightarrow> th < x) r"
  unfolding dropna_def filter_filter
  by (rule filter_cong) (auto simp: notna_def split: option.splits)

lemma detect_type1_value:
  assumes "5 \<le> length (dropna r)" and "0 \<le> q" and "q \<le> 1"
  shows "detect_type1_spike_up r q =
           Inr (map fst (filter (\<lambda>(t, v). case v of None \<Rightarrow> False
                                          | Some x \<Rightarrow> linear_quantile (clean_values r) q < x) r))"
proof -
  from assms(1) have "clean_values r \<noteq> []"
    by (auto simp: length_dropna)
  with assms show ?thesis
    by (simp add: detect_type1_spike_up_def quantile_def index_def spike_filter)
qed

lemma subseq_set_length:
  assumes "subseq xs ys"
  shows "set xs \<subseteq> set ys" and "length xs \<le> length ys"
proof -
  show "set xs \<subseteq> set ys"
  proof
    fix x
    assume "x \<in> set xs"
    with assms obtain y where "y \<in> set ys" and "x = y"
      by (rule list_emb_set)
    then show "x \<in> set ys" by simp
  qed
  show "length xs \<le> length ys"
    using assms by (rule list_emb_length)
qed

lemma dropna_insert_missing: "dropna (xs @ (t, None) # ys) = dropna (xs @ ys)"
  by (simp add: dropna_def notna_def)

lemma detect_type1_dropna:
  "dropna r1 = dropna r2 \<Longrightarrow> detect_type1_spike_up r1 q_up = detect_type1_spike_up r2 q_up"
  by (simp add: detect_type1_spike_up_def)

lemma detect_type2_dropna:
  "dropna r1 = dropna r2 \<Longrightarrow>
   detect_type2_turn_patterns r1 w_pre w_post q_h q_flat q_trend =
   detect_type2_turn_patterns r2 w_pre w_post q_h q_flat q_trend"
  by (simp add: detect_type2_turn_patterns_def)

lemma detect_type1_subseq:
  assumes "detect_type1_spike_up r q_up = Inr out"
  shows "subseq out (index (dropna r))"
proof (cases "length (dropna r) < 5")
  case True
  with assms show ?thesis
    by (simp add: detect_type1_spike_up_def)
next
  case False
  with assms obtain th where "out = index (filter (\<lambda>(t, v). fl_gt v th) (dropna r))"
    by (auto simp: detect_type1_spike_up_def Let_def split: sum.splits)
  then show ?thesis
    by (simp add: index_def subseq_map)
qed

lemma detect_type2_members:
  assumes "detect_type2_turn_patterns r w_pre w_post q_h q_flat q_trend = Inr labels"
  shows "set (dd_get labels k) \<subseteq> set (index (dropna r))"
proof -
  consider "labels = []"
    | th_h th_flat th_trend where
      "labels = foldl (scan_step (dropna r) (diff (vals (dropna r))) th_h th_flat th_trend
                         w_pre w_post) [] [1 ..< length (dropna r) - 1]"
    using detect_type2_cases [OF assms] by blast
  then show ?thesis
  proof cases
    case 1
    then show ?thesis by simp
  next
    case 2
    show ?thesis
    proof
      fix ts
      assume "ts \<in> set (dd_get labels k)"
      then obtain t where "t + 1 < length (dropna r)" and "index (dropna r) ! t = ts"
        unfolding 2 scan_members by blast
      then show "ts \<in> set (index (dropna r))"
        by (auto simp: index_def)
    qed
  qed
qed

lemma missing_timestamp_not_clean:
  assumes "distinct (index r)" and "(t, None) \<in> set r"
  shows "t \<notin> set (index (dropna r))"
proof
  assume "t \<in> set (index (dropna r))"
  then obtain v where "(t, v) \<in> set r" and "v \<noteq> None"
    by (auto simp: index_def dropna_def notna_def)
  with assms show False
    unfolding index_def by (metis eq_key_imp_eq_value)
qed

section \<open>Series that keep one sign\<close>




section \<open>Insufficient data\<close>

text \<open>
  Claim C5.  A series with fewer than five non-missing points gives the empty sequence
  of spikes, whatever the quantile parameter is (also outside the unit interval: the
  quantile is never computed).
\<close>

theorem spike_insufficient_data:
  "length (dropna r) < 5 \<Longrightarrow> detect_type1_spike_up r q_up = Inr []"
  by (simp add: detect_type1_spike_up_def)

theorem spike_insufficient_data_witness:
  "length (dropna short_series) < 5 \<and> detect_type1_spike_up short_series 2 = Inr []"
  using spike_insufficient_data [of short_series 2]
  by (simp add: short_series_def dropna_def notna_def)

text \<open>
  Claim C4.  With fewer than \<open>w_pre + w_post + 4\<close> non-missing points the turn detector
  returns a mapping, not an error, and each of the four pattern buckets reads as empty.
\<close>

theorem turns_insufficient_data:
  "int (length (dropna r)) < w_pre + w_post + 4 \<Longrightarrow>
   \<exists>labels. detect_type2_turn_patterns r w_pre w_post q_h q_flat q_trend = Inr labels \<and>
            (\<forall>k \<in> set pattern_names. dd_get labels k = [])"
  by (simp add: detect_type2_turn_patterns_def dd_get_def)

theorem turns_insufficient_data_witness:
  "int (length (dropna short_series)) < 3 + 3 + 4 \<and>
   map_sum id (\<lambda>labels. map (dd_get labels) pattern_names)
     (detect_type2_turn_patterns short_series 3 3 (9 / 10) (1 / 5) (7 / 10)) = Inr [[], [], [], []]"
  using turns_insufficient_data [of short_series 3 3 "9 / 10" "1 / 5" "7 / 10"]
  by (auto simp: short_series_def dropna_def notna_def pattern_names_def)

section \<open>Keys and order of the turn detector's mapping\<close>

text \<open>
  Claim C10.  Whenever the turn detector returns (it does for quantile levels in the
  unit interval), the keys it has materialised are among the four pattern names, and
  every bucket lists the timestamps of a strictly increasing sequence of interior
  positions of the cleaned series, so each bucket is in chronological order.
\<close>

theorem turn_keys_and_order:
  "(0 \<le> q_h \<and> q_h \<le> 1 \<and> 0 \<le> q_flat \<and> q_flat \<le> 1 \<and> 0 \<le> q_trend \<and> q_trend \<le> 1 \<longrightarrow>
      (\<exists>labels. detect_type2_turn_patterns r0 w_pre w_post q_h q_flat q_trend = Inr labels)) \<and>
   (\<forall>labels. detect_type2_turn_patterns r0 w_pre w_post q_h q_flat q_trend = Inr labels \<longrightarrow>
      set (dd_keys labels) \<subseteq> set pattern_names \<and>
      (\<forall>k. \<exists>ps. sorted_wrt (<) ps \<and> set ps \<subseteq> {1 ..< length (dropna r0) - 1} \<and>
                 dd_get labels k = map (\<lambda>t. index (dropna r0) ! t) ps))"
proof (intro conjI allI impI)
  assume "0 \<le> q_h \<and> q_h \<le> 1 \<and> 0 \<le> q_flat \<and> q_flat \<le> 1 \<and> 0 \<le> q_trend \<and> q_trend \<le> 1"
  then show "\<exists>labels. detect_type2_turn_patterns r0 w_pre w_post q_h q_flat q_trend = Inr labels"
    by (simp add: detect_type2_returns)
next
  fix labels
  assume "detect_type2_turn_patterns r0 w_pre w_post q_h q_flat q_trend = Inr labels"
  then show "set (dd_keys labels) \<subseteq> set pattern_names"
    using detect_type2_cases [of r0 w_pre w_post q_h q_flat q_trend labels]
    by (auto simp: scan_keys dest: pattern_at_names)
next
  fix labels k
  assume "detect_type2_turn_patterns r0 w_pre w_post q_h q_flat q_trend = Inr labels"
  then consider "labels = []"
    | th_h th_flat th_trend where
      "labels = foldl (scan_step (dropna r0) (diff (vals (dropna r0))) th_h th_flat th_trend
                         w_pre w_post) [] [1 ..< length (dropna r0) - 1]"
    using detect_type2_cases [of r0 w_pre w_post q_h q_flat q_trend labels] by blast
  then show "\<exists>ps. sorted_wrt (<) ps \<and> set ps \<subseteq> {1 ..< length (dropna r0) - 1} \<and>
                 dd_get labels k = map (\<lambda>t. index (dropna r0) ! t) ps"
  proof cases
    case 1
    then show ?thesis
      by (intro exI [of _ "[]"]) simp
  next
    case 2
    then show ?thesis
      using scan_get_positions [of "length (dropna r0)" "dropna r0" "diff (vals (dropna r0))"
          th_h th_flat th_trend w_pre w_post k]
      by blast
  qed
qed

theorem turn_keys_and_order_witness:
  "(0::real) \<le> 9 / 10 \<and> (9::real) / 10 \<le> 1 \<and> (0::real) \<le> 1 / 5 \<and> (1::real) / 5 \<le> 1 \<and>
   (0::real) \<le> 7 / 10 \<and> (7::real) / 10 \<le> 1 \<and>
   detect_type2_turn_patterns crossing_series 3 3 (9 / 10) (1 / 5) (7 / 10)
     = Inr [(''flat_turn_up'', [16])] \<and>
   set (dd_keys [(''flat_turn_up'', [16::nat])]) \<subseteq> set pattern_names \<and>
   (\<exists>ps. sorted_wrt (<) ps \<and> set ps \<subseteq> {1 ..< length (dropna crossing_series) - 1} \<and>
         dd_get [(''flat_turn_up'', [16])] ''flat_turn_up''
           = map (\<lambda>t. index (dropna crossing_series) ! t) ps)"
proof -
  have h: "detect_type2_turn_patterns crossing_series 3 3 (9 / 10) (1 / 5) (7 / 10)
             = Inr [(''flat_turn_up'', [16])]"
    by code_simp
  show ?thesis
    using turn_keys_and_order [of "9 / 10" "1 / 5" "7 / 10" crossing_series 3 3] h
    by simp
qed

text \<open>
  Claim C3, as stated: the returned mapping always has exactly the four keys.  It does
  not: on ten rising points the detector has enough data, finds no turn and returns a
  mapping with no key at all.
\<close>

theorem turn_mapping_keys_counterexample:
  "map_sum id dd_keys (detect_type2_turn_patterns rising_series 3 3 (9 / 10) (1 / 5) (7 / 10))
     = Inr [] \<and>
   map_sum id (\<lambda>labels. set (dd_keys labels) = set pattern_names)
     (detect_type2_turn_patterns rising_series 3 3 (9 / 10) (1 / 5) (7 / 10)) = Inr False"
proof -
  have "detect_type2_turn_patterns rising_series 3 3 (9 / 10) (1 / 5) (7 / 10) = Inr []"
    by code_simp
  then show ?thesis
    by (simp add: pattern_names_def)
qed

text \<open>
  Claim C3, amended.  The returned mapping holds only keys among the four pattern
  names, each once, and a key is present exactly when its bucket is non-empty; with
  insufficient data it holds no key.  A bucket that is absent reads as the empty list.
\<close>

theorem turn_mapping_is_sparse:
  assumes "detect_type2_turn_patterns r0 w_pre w_post q_h q_flat q_trend = Inr labels"
  shows "set (dd_keys labels) \<subseteq> set pattern_names \<and> distinct (dd_keys labels) \<and>
         (\<forall>k. k \<in> set (dd_keys labels) \<longleftrightarrow> dd_get labels k \<noteq> []) \<and>
         (int (length (dropna r0)) < w_pre + w_post + 4 \<longrightarrow> dd_keys labels = [])"
proof -
  consider "labels = []"
    | th_h th_flat th_trend where
      "labels = foldl (scan_step (dropna r0) (diff (vals (dropna r0))) th_h th_flat th_trend
                         w_pre w_post) [] [1 ..< length (dropna r0) - 1]"
    using detect_type2_cases [OF assms] by blast
  then have "set (dd_keys labels) \<subseteq> set pattern_names \<and> distinct (dd_keys labels) \<and>
         (\<forall>k. k \<in> set (dd_keys labels) \<longleftrightarrow> dd_get labels k \<noteq> [])"
  proof cases
    case 1
    then show ?thesis by simp
  next
    case 2
    have a: "set (dd_keys labels) \<subseteq> set pattern_names"
      unfolding 2 by (auto simp: scan_keys dest: pattern_at_names)
    have b: "distinct (dd_keys labels)"
      unfolding 2 by (rule scan_keys_distinct) simp
    have c: "k \<in> set (dd_keys labels) \<longleftrightarrow> dd_get labels k \<noteq> []" for k
      unfolding 2 scan_keys scan_get by (auto simp: filter_empty_conv)
    from a b c show ?thesis by blast
  qed
  moreover have "int (length (dropna r0)) < w_pre + w_post + 4 \<longrightarrow> dd_keys labels = []"
    using assms by (auto simp: detect_type2_turn_patterns_def)
  ultimately show ?thesis by blast
qed


theorem turn_mapping_is_sparse_witness:
  "detect_type2_turn_patterns crossing_series 3 3 (9 / 10) (1 / 5) (7 / 10)
     = Inr [(''flat_turn_up'', [16])] \<and>
   set (dd_keys [(''flat_turn_up'', [16::nat])]) \<subseteq> set pattern_names \<and>
   distinct (dd_keys [(''flat_turn_up'', [16::nat])]) \<and>
   ''flat_turn_up'' \<in> set (dd_keys [(''flat_turn_up'', [16::nat])]) \<and>
   dd_get [(''flat_turn_up'', [16::nat])] ''flat_turn_up'' \<noteq> [] \<and>
   ''up_turn_flat'' \<notin> set (dd_keys [(''flat_turn_up'', [16::nat])]) \<and>
   dd_get [(''flat_turn_up'', [16::nat])] ''up_turn_flat'' = [] \<and>
   detect_type2_turn_patterns short_series 3 3 (9 / 10) (1 / 5) (7 / 10) = Inr [] \<and>
   int (length (dropna short_series)) < 3 + 3 + 4 \<and>
   dd_keys ([] :: nat labels) = []"
proof -
  have h: "detect_type2_turn_patterns crossing_series 3 3 (9 / 10) (1 / 5) (7 / 10)
             = Inr [(''flat_turn_up'', [16])]"
    by code_simp
  have s: "detect_type2_turn_patterns short_series 3 3 (9 / 10) (1 / 5) (7 / 10) = Inr []"
    by code_simp
  have n: "int (length (dropna short_series)) < 3 + 3 + 4"
    by code_simp
  show ?thesis
    using turn_mapping_is_sparse [OF h] turn_mapping_is_sparse [OF s] h s n
    by (simp add: dd_get_def dd_keys_def)
qed

section \<open>The scan loop on the cleaned series\<close>






section \<open>Spikes above the quantile\<close>



text \<open>
  Claim C6.  For quantile levels \<open>q1 \<le> q2\<close> the spikes found at \<open>q2\<close> are among those
  found at \<open>q1\<close>, in the same order, so raising the level never adds a spike.
\<close>

theorem spikes_monotone_in_quantile:
  assumes "0 \<le> q1" and "q1 \<le> q2" and "q2 \<le> 1"
  shows "\<exists>out1 out2. detect_type1_spike_up r q1 = Inr out1 \<and>
                     detect_type1_spike_up r q2 = Inr out2 \<and>
                     set out2 \<subseteq> set out1 \<and> length out2 \<le> length out1 \<and> subseq out2 out1"
proof (cases "length (dropna r) < 5")
  case True
  then show ?thesis
    by (simp add: detect_type1_spike_up_def)
next
  case False
  then have len: "5 \<le> length (dropna r)"
    by simp
  then have ne: "clean_values r \<noteq> []"
    by (auto simp: length_dropna)
  let ?P = "\<lambda>q. \<lambda>(t :: 'a, v). case v of None \<Rightarrow> False
                                 | Some x \<Rightarrow> linear_quantile (clean_values r) q < x"
  have q1: "q1 \<le> 1" and q2: "0 \<le> q2"
    using assms by simp_all
  have o1: "detect_type1_spike_up r q1 = Inr (map fst (filter (?P q1) r))"
    using len assms(1) q1 by (rule detect_type1_value)
  have o2: "detect_type1_spike_up r q2 = Inr (map fst (filter (?P q2) r))"
    using len q2 assms(3) by (rule detect_type1_value)
  have th: "linear_quantile (clean_values r) q1 \<le> linear_quantile (clean_values r) q2"
    using ne assms by (rule linear_quantile_mono)
  have "filter (?P q2) r = filter (?P q2) (filter (?P q1) r)"
    unfolding filter_filter
    by (rule filter_cong) (use th in \<open>auto split: option.splits\<close>)
  then have sub: "subseq (map fst (filter (?P q2) r)) (map fst (filter (?P q1) r))"
    by (metis subseq_filter_left subseq_map)
  then have "set (map fst (filter (?P q2) r)) \<subseteq> set (map fst (filter (?P q1) r))"
    and "length (map fst (filter (?P q2) r)) \<le> length (map fst (filter (?P q1) r))"
    by (rule subseq_set_length)+
  with o1 o2 sub show ?thesis
    by blast
qed


theorem spikes_monotone_in_quantile_witness:
  "(0::real) \<le> 1 / 2 \<and> (1::real) / 2 \<le> 9 / 10 \<and> (9::real) / 10 \<le> 1 \<and>
   detect_type1_spike_up crossing_series (1 / 2) = Inr [10, 11, 12, 13, 14, 15, 16, 17, 18, 19] \<and>
   detect_type1_spike_up crossing_series (9 / 10) = Inr [18, 19] \<and>
   set [18, 19 :: nat] \<subseteq> set [10, 11, 12, 13, 14, 15, 16, 17, 18, 19] \<and>
   length [18, 19 :: nat] \<le> length [10, 11, 12, 13, 14, 15, 16, 17, 18, 19 :: nat] \<and>
   subseq [18, 19 :: nat] [10, 11, 12, 13, 14, 15, 16, 17, 18, 19]"
proof -
  have a: "(0::real) \<le> 1 / 2" and b: "(1::real) / 2 \<le> 9 / 10" and c: "(9::real) / 10 \<le> 1"
    by simp_all
  have e1: "detect_type1_spike_up crossing_series (1 / 2)
              = Inr [10, 11, 12, 13, 14, 15, 16, 17, 18, 19]"
    by code_simp
  have e2: "detect_type1_spike_up crossing_series (9 / 10) = Inr [18, 19]"
    by code_simp
  from spikes_monotone_in_quantile [OF a b c, of crossing_series]
  have "set [18, 19 :: nat] \<subseteq> set [10, 11, 12, 13, 14, 15, 16, 17, 18, 19] \<and>
        length [18, 19 :: nat] \<le> length [10, 11, 12, 13, 14, 15, 16, 17, 18, 19 :: nat] \<and>
        subseq [18, 19 :: nat] [10, 11, 12, 13, 14, 15, 16, 17, 18, 19]"
    unfolding e1 e2 by blast
  with a b c e1 e2 show ?thesis
    by blast
qed

section \<open>Missing values\<close>

text \<open>
  Claim C7.  For both detectors and all parameters: two series that agree after their
  missing entries are dropped give the same result; putting a missing point anywhere
  into a series (or taking it out) changes nothing; every returned timestamp is that of
  a non-missing entry; and, timestamps being unique, the timestamp of a missing point is
  in no output.
\<close>

theorem missing_values_do_not_matter:
  "(dropna r1 = dropna r2 \<longrightarrow>
      detect_type1_spike_up r1 q_up = detect_type1_spike_up r2 q_up \<and>
      detect_type2_turn_patterns r1 w_pre w_post q_h q_flat q_trend =
      detect_type2_turn_patterns r2 w_pre w_post q_h q_flat q_trend) \<and>
   detect_type1_spike_up (xs @ (t, None) # ys) q_up = detect_type1_spike_up (xs @ ys) q_up \<and>
   detect_type2_turn_patterns (xs @ (t, None) # ys) w_pre w_post q_h q_flat q_trend =
   detect_type2_turn_patterns (xs @ ys) w_pre w_post q_h q_flat q_trend \<and>
   (\<forall>out. detect_type1_spike_up r1 q_up = Inr out \<longrightarrow> subseq out (index (dropna r1))) \<and>
   (\<forall>labels k. detect_type2_turn_patterns r1 w_pre w_post q_h q_flat q_trend = Inr labels \<longrightarrow>
      set (dd_get labels k) \<subseteq> set (index (dropna r1))) \<and>
   (distinct (index r1) \<and> (t, None) \<in> set r1 \<longrightarrow>
      (\<forall>out. detect_type1_spike_up r1 q_up = Inr out \<longrightarrow> t \<notin> set out) \<and>
      (\<forall>labels k. detect_type2_turn_patterns r1 w_pre w_post q_h q_flat q_trend = Inr labels \<longrightarrow>
         t \<notin> set (dd_get labels k)))"
proof -
  have a: "detect_type1_spike_up r1 q_up = detect_type1_spike_up r2 q_up \<and>
      detect_type2_turn_patterns r1 w_pre w_post q_h q_flat q_trend =
      detect_type2_turn_patterns r2 w_pre w_post q_h q_flat q_trend"
    if "dropna r1 = dropna r2"
    using detect_type1_dropna [OF that] detect_type2_dropna [OF that] by (rule conjI)
  have b1: "detect_type1_spike_up (xs @ (t, None) # ys) q_up = detect_type1_spike_up (xs @ ys) q_up"
    by (rule detect_type1_dropna) (rule dropna_insert_missing)
  have b2: "detect_type2_turn_patterns (xs @ (t, None) # ys) w_pre w_post q_h q_flat q_trend =
            detect_type2_turn_patterns (xs @ ys) w_pre w_post q_h q_flat q_trend"
    by (rule detect_type2_dropna) (rule dropna_insert_missing)
  have c1: "subseq out (index (dropna r1))" if "detect_type1_spike_up r1 q_up = Inr out" for out
    using that by (rule detect_type1_subseq)
  have c2: "set (dd_get labels k) \<subseteq> set (index (dropna r1))"
    if "detect_type2_turn_patterns r1 w_pre w_post q_h q_flat q_trend = Inr labels" for labels k
    using that by (rule detect_type2_members)
  have d1: "t \<notin> set out"
    if "distinct (index r1) \<and> (t, None) \<in> set r1" and "detect_type1_spike_up r1 q_up = Inr out"
    for out
    using missing_timestamp_not_clean [of r1 t] subseq_set_length(1) [OF c1 [OF that(2)]] that(1)
    by auto
  have d2: "t \<notin> set (dd_get labels k)"
    if "distinct (index r1) \<and> (t, None) \<in> set r1"
      and "detect_type2_turn_patterns r1 w_pre w_post q_h q_flat q_trend = Inr labels"
    for labels k
    using missing_timestamp_not_clean [of r1 t] c2 [OF that(2), of k] that(1)
    by auto
  show ?thesis
    by (intro conjI impI allI) (use a b1 b2 c1 c2 d1 d2 in \<open>blast+\<close>)
qed

theorem missing_values_do_not_matter_witness:
  "dropna gapped_series = dropna crossing_series \<and>
   detect_type1_spike_up gapped_series (9 / 10) = detect_type1_spike_up crossing_series (9 / 10) \<and>
   detect_type2_turn_patterns gapped_series 3 3 (9 / 10) (1 / 5) (7 / 10) =
   detect_type2_turn_patterns crossing_series 3 3 (9 / 10) (1 / 5) (7 / 10) \<and>
   detect_type1_spike_up gapped_series (9 / 10) = Inr [18, 19] \<and>
   detect_type2_turn_patterns gapped_series 3 3 (9 / 10) (1 / 5) (7 / 10)
     = Inr [(''flat_turn_up'', [16])] \<and>
   distinct (index gapped_series) \<and> (100, None) \<in> set gapped_series \<and>
   100 \<notin> set [18, 19 :: nat] \<and>
   100 \<notin> set (dd_get [(''flat_turn_up'', [16 :: nat])] ''flat_turn_up'')"
proof -
  have e: "dropna gapped_series = dropna crossing_series" by code_simp
  have o1: "detect_type1_spike_up gapped_series (9 / 10) = Inr [18, 19]" by code_simp
  have o2: "detect_type2_turn_patterns gapped_series 3 3 (9 / 10) (1 / 5) (7 / 10)
              = Inr [(''flat_turn_up'', [16])]" by code_simp
  have d: "distinct (index gapped_series)" by code_simp
  have m: "(100, None) \<in> set gapped_series" by code_simp
  note all = missing_values_do_not_matter [of gapped_series crossing_series "9 / 10" 3 3
      "9 / 10" "1 / 5" "7 / 10" "[]" 100 "[]"]
  note p1 = all [THEN conjunct1, rule_format, OF e]
  note p6 = all [THEN conjunct2, THEN conjunct2, THEN conjunct2, THEN conjunct2, THEN conjunct2,
      THEN mp, OF conjI [OF d m]]
  note p7 = p6 [THEN conjunct1, rule_format, OF o1]
  note p8 = p6 [THEN conjunct2, rule_format, OF o2]
  show ?thesis
    by (intro conjI) (rule e p1 [THEN conjunct1] p1 [THEN conjunct2] o1 o2 d m p7 p8)+
qed

section \<open>Strictly increasing series\<close>




end
